theory Spec2Isabelle
  imports Complex_Main "HOL-Library.Word"
begin

section \<open>JavaScript values and strings\<close>

text \<open>
  A JavaScript string is a sequence of UTF-16 code units, and \<open>.length\<close> counts code
  units.  The regular expressions of \<open>textUtils.js\<close> carry no \<open>u\<close> flag, so they
  match code unit by code unit as well.
\<close>

type_synonym code_unit = "16 word"
type_synonym jsstring = "code_unit list"

text \<open>
  The functions are documented for a string argument, and the guards \<open>!text\<close> admit
  \<open>undefined\<close> and \<open>null\<close>.  Booleans stand for the other primitives: they have a
  truth value but no \<open>trim\<close> or \<open>replace\<close> method.
\<close>

datatype js_value = Undefined | Null | Bool bool | Str jsstring

datatype error = TypeError

fun truthy :: "js_value \<Rightarrow> bool" where
  "truthy Undefined = False"
| "truthy Null = False"
| "truthy (Bool b) = b"
| "truthy (Str s) = (s \<noteq> [])"

text \<open>The input domain of the specification: a string, or an absent or null value.\<close>

fun in_domain :: "js_value \<Rightarrow> bool" where
  "in_domain Undefined = True"
| "in_domain Null = True"
| "in_domain (Bool b) = False"
| "in_domain (Str s) = True"

definition utf16 :: "string \<Rightarrow> jsstring" where
  \<comment> \<open>an ASCII literal as code units\<close>
  "utf16 cs = map of_char cs"

subsection \<open>White space\<close>

text \<open>
  ECMAScript's \<open>WhiteSpace\<close> production (TAB, VT, FF, ZWNBSP and the code points of
  category Zs) and its \<open>LineTerminator\<close> production (LF, CR, LS, PS).  Both
  \<open>String.prototype.trim\<close> and the class escape \<open>\s\<close> use their union.
\<close>

definition isWhiteSpace :: "code_unit \<Rightarrow> bool" where
  "isWhiteSpace c \<longleftrightarrow>
     c = 0x0009 \<or> c = 0x000B \<or> c = 0x000C \<or> c = 0xFEFF \<or> c = 0x0020 \<or> c = 0x00A0 \<or>
     c = 0x1680 \<or> (0x2000 \<le> c \<and> c \<le> 0x200A) \<or> c = 0x202F \<or> c = 0x205F \<or> c = 0x3000"

definition isLineTerminator :: "code_unit \<Rightarrow> bool" where
  "isLineTerminator c \<longleftrightarrow> c = 0x000A \<or> c = 0x000D \<or> c = 0x2028 \<or> c = 0x2029"

definition isSpace :: "code_unit \<Rightarrow> bool" where
  "isSpace c \<longleftrightarrow> isWhiteSpace c \<or> isLineTerminator c"

subsection \<open>String methods\<close>

definition trim :: "jsstring \<Rightarrow> jsstring" where
  \<comment> \<open>\<open>String.prototype.trim\<close>: white space removed at both ends\<close>
  "trim s = rev (dropWhile isSpace (rev (dropWhile isSpace s)))"

definition match_space_plus :: "jsstring \<Rightarrow> nat option" where
  \<comment> \<open>\<open>/\s+/\<close> matched at the head of \<open>s\<close>: the length of the greedy match, if any\<close>
  "match_space_plus s =
     (let m = takeWhile isSpace s in if m = [] then None else Some (length m))"

text \<open>
  \<open>s.split(/\s+/)\<close>, after the ECMAScript algorithm: \<open>tok\<close> is the substring from the
  end \<open>p\<close> of the last separator to the scanning position \<open>q\<close>, the second argument is
  the rest of the string from \<open>q\<close>.  Where the pattern fails, \<open>q\<close> advances by one
  code unit; where it matches, the token is pushed and scanning resumes after the match.
  The default limit of \<open>2^32 - 1\<close> elements exceeds the length of any string an engine
  builds and is left out.
\<close>

function split_loop :: "jsstring \<Rightarrow> jsstring \<Rightarrow> jsstring list" where
  "split_loop tok [] = [tok]"
| "split_loop tok (c # cs) =
     (case match_space_plus (c # cs) of
        None \<Rightarrow> split_loop (tok @ [c]) cs
      | Some e \<Rightarrow> tok # split_loop [] (drop e (c # cs)))"
  by pat_completeness auto
termination
  by (relation "measure (\<lambda>(tok, s). length s)")
     (auto simp: match_space_plus_def Let_def split: if_splits)

definition split_space :: "jsstring \<Rightarrow> jsstring list" where
  \<comment> \<open>on the empty string the result is empty only if the pattern matches it\<close>
  "split_space s =
     (if s = [] then (case match_space_plus [] of None \<Rightarrow> [s] | Some e \<Rightarrow> [])
      else split_loop [] s)"

fun replace_space :: "jsstring \<Rightarrow> jsstring \<Rightarrow> jsstring" where
  \<comment> \<open>\<open>s.replace(/\s/g, r)\<close> for a replacement \<open>r\<close> without \<open>$\<close> patterns\<close>
  "replace_space r [] = []"
| "replace_space r (c # cs) =
     (if isSpace c then r @ replace_space r cs else c # replace_space r cs)"

text \<open>A method call on a value: only strings have \<open>trim\<close> and \<open>replace\<close>.\<close>

fun call_trim :: "js_value \<Rightarrow> error + jsstring" where
  "call_trim (Str s) = Inr (trim s)"
| "call_trim v = Inl TypeError"

fun call_replace_space :: "js_value \<Rightarrow> jsstring \<Rightarrow> error + jsstring" where
  "call_replace_space (Str s) r = Inr (replace_space r s)"
| "call_replace_space v r = Inl TypeError"

section \<open>textUtils.js\<close>

definition wordCount :: "js_value \<Rightarrow> error + nat" where
  "wordCount text =
     (if \<not> truthy text then Inr 0
      else case call_trim text of
        Inl e \<Rightarrow> Inl e
      | Inr t \<Rightarrow>
          if t = [] then Inr 0
          else (case call_trim text of
                  Inl e \<Rightarrow> Inl e
                | Inr t' \<Rightarrow> Inr (length (split_space t'))))"

definition charCount :: "js_value \<Rightarrow> error + nat" where
  "charCount text =
     (if \<not> truthy text then Inr 0
      else case call_replace_space text [] of
        Inl e \<Rightarrow> Inl e
      | Inr r \<Rightarrow> Inr (length r))"

definition WORDS_PER_MINUTE :: nat where
  "WORDS_PER_MINUTE = 200"

text \<open>
  \<open>Math.ceil(words / WORDS_PER_MINUTE)\<close>.  The quotient of the source is a double; for a
  word count below \<open>2^53\<close> it is within \<open>2^-8\<close> of the exact quotient, which is an
  integer or at least \<open>1/200\<close> away from one, so that its ceiling is the ceiling of the
  exact quotient.
\<close>

definition readingTime :: "js_value \<Rightarrow> error + int" where
  "readingTime text =
     (case wordCount text of
        Inl e \<Rightarrow> Inl e
      | Inr words \<Rightarrow> Inr \<lceil>real words / real WORDS_PER_MINUTE\<rceil>)"

section \<open>Fixtures of the test suite\<close>

definition repeat_word :: "nat \<Rightarrow> jsstring" where
  \<comment> \<open>\<open>'word '.repeat(n).trim()\<close>\<close>
  "repeat_word n = trim (concat (replicate n (utf16 ''word '')))"

section \<open>The specification's notions\<close>

text \<open>
  A word is a maximal run of code units that are not white space: the positions
  \<open>i, \<dots>, j - 1\<close> hold no white space, and the run can be extended neither to the left
  nor to the right.
\<close>

definition maximal_run :: "jsstring \<Rightarrow> nat \<Rightarrow> nat \<Rightarrow> bool" where
  "maximal_run s i j \<longleftrightarrow>
     i < j \<and> j \<le> length s \<and> (\<forall>k\<in>{i..<j}. \<not> isSpace (s ! k)) \<and>
     (i = 0 \<or> isSpace (s ! (i - 1))) \<and> (j = length s \<or> isSpace (s ! j))"

definition maximal_runs :: "jsstring \<Rightarrow> (nat \<times> nat) list" where
  "maximal_runs s =
     filter (\<lambda>(i, j). maximal_run s i j) (List.product [0..<length s] [0..<Suc (length s)])"

text \<open>
  The other wording of the specification: trim, collapse every run of white space into
  one separator (a space), cut at the separators and keep the tokens that are not empty.
\<close>

function collapse_space :: "jsstring \<Rightarrow> jsstring" where
  "collapse_space [] = []"
| "collapse_space (c # cs) =
     (if isSpace c then 0x0020 # collapse_space (dropWhile isSpace cs)
      else c # collapse_space cs)"
  by pat_completeness auto
termination
  by (relation "measure length") (auto simp: less_Suc_eq_le length_dropWhile_le)

fun separate :: "jsstring \<Rightarrow> jsstring \<Rightarrow> jsstring list" where
  "separate tok [] = [tok]"
| "separate tok (c # cs) =
     (if c = 0x0020 then tok # separate [] cs else separate (tok @ [c]) cs)"

definition tokens :: "jsstring \<Rightarrow> jsstring list" where
  "tokens s = filter (\<lambda>t. t \<noteq> []) (separate [] (collapse_space (trim s)))"

definition without_space :: "jsstring \<Rightarrow> jsstring" where
  \<comment> \<open>the string after removing every white space character\<close>
  "without_space s = filter (\<lambda>c. \<not> isSpace c) s"

definition isPunctuation :: "code_unit \<Rightarrow> bool" where
  \<comment> \<open>the ASCII punctuation marks, the hyphen \<open>0x2D\<close> among them\<close>
  "isPunctuation c \<longleftrightarrow>
     (0x21 \<le> c \<and> c \<le> 0x2F) \<or> (0x3A \<le> c \<and> c \<le> 0x40) \<or>
     (0x5B \<le> c \<and> c \<le> 0x60) \<or> (0x7B \<le> c \<and> c \<le> 0x7E)"

section \<open>Auxiliary notions of the proofs\<close>

text \<open>
  Words counted in one pass from the left; the flag says whether the position before the
  string lies inside a word.
\<close>

fun count_words :: "bool \<Rightarrow> jsstring \<Rightarrow> nat" where
  "count_words b [] = 0"
| "count_words b (c # cs) =
     (if isSpace c then count_words False cs
      else (if b then 0 else 1) + count_words True cs)"

definition word_start :: "jsstring \<Rightarrow> nat \<Rightarrow> bool" where
  "word_start s i \<longleftrightarrow>
     i < length s \<and> \<not> isSpace (s ! i) \<and> (i = 0 \<or> isSpace (s ! (i - 1)))"

definition run_end :: "jsstring \<Rightarrow> nat \<Rightarrow> nat" where
  "run_end s i = i + length (takeWhile (\<lambda>c. \<not> isSpace c) (drop i s))"

section \<open>White space and trimming\<close>

lemma isSpace_SP: "isSpace 0x0020"
  by (simp add: isSpace_def isWhiteSpace_def)

lemma isSpace_TAB: "isSpace 0x0009"
  by (simp add: isSpace_def isWhiteSpace_def)

lemma isSpace_LF: "isSpace 0x000A"
  by (simp add: isSpace_def isLineTerminator_def)

lemma ascii_graphic_not_space:
  assumes "0x21 \<le> c" and "c \<le> 0x7E"
  shows "\<not> isSpace c"
proof -
  from assms have "33 \<le> unat c" and "unat c \<le> 126"
    by (simp_all add: word_le_nat_alt)
  then show ?thesis
    unfolding isSpace_def isWhiteSpace_def isLineTerminator_def
    by (auto simp: word_le_nat_alt)
qed

lemma isPunctuation_not_space: "isPunctuation c \<Longrightarrow> \<not> isSpace c"
proof (rule ascii_graphic_not_space)
  assume "isPunctuation c"
  then show "0x21 \<le> c" and "c \<le> 0x7E"
    unfolding isPunctuation_def by (auto simp: word_le_nat_alt)
qed

lemma all_dropWhile_iff: "(\<forall>x\<in>set (dropWhile P s). P x) \<longleftrightarrow> (\<forall>x\<in>set s. P x)"
proof
  assume a: "\<forall>x\<in>set (dropWhile P s). P x"
  have "dropWhile P s = []"
  proof (rule ccontr)
    assume n: "dropWhile P s \<noteq> []"
    then have "\<not> P (hd (dropWhile P s))" by (metis hd_dropWhile)
    moreover have "hd (dropWhile P s) \<in> set (dropWhile P s)" using n by simp
    ultimately show False using a by blast
  qed
  then show "\<forall>x\<in>set s. P x" by simp
next
  assume "\<forall>x\<in>set s. P x"
  then show "\<forall>x\<in>set (dropWhile P s). P x" by (blast dest: set_dropWhileD)
qed

lemma trim_Nil_iff: "trim s = [] \<longleftrightarrow> (\<forall>c\<in>set s. isSpace c)"
  by (simp add: trim_def all_dropWhile_iff)

lemma last_dropWhile: "dropWhile P xs \<noteq> [] \<Longrightarrow> last (dropWhile P xs) = last xs"
  by (metis last_appendR takeWhile_dropWhile_id)

lemma trim_ends:
  assumes "trim s \<noteq> []"
  shows "\<not> isSpace (hd (trim s))" and "\<not> isSpace (last (trim s))"
proof -
  let ?d = "dropWhile isSpace s"
  let ?e = "dropWhile isSpace (rev ?d)"
  have e: "?e \<noteq> []" using assms by (simp add: trim_def)
  then have "\<not> isSpace (hd ?e)" by (metis hd_dropWhile)
  then show "\<not> isSpace (last (trim s))" using e by (simp add: trim_def last_rev)
  have d: "?d \<noteq> []" using e by (cases "?d = []") simp_all
  then have hd: "\<not> isSpace (hd ?d)" by (metis hd_dropWhile)
  have "last ?e = last (rev ?d)" using e by (rule last_dropWhile)
  then have "hd (rev ?e) = hd ?d" using e d by (simp add: hd_rev last_rev)
  then show "\<not> isSpace (hd (trim s))" using hd by (simp add: trim_def)
qed

section \<open>Counting words in one pass\<close>

lemma count_words_all_space: "\<forall>c\<in>set s. isSpace c \<Longrightarrow> count_words b s = 0"
  by (induction s arbitrary: b) auto

lemma count_words_space_prefix:
  "\<forall>c\<in>set w. isSpace c \<Longrightarrow> count_words False (w @ v) = count_words False v"
  by (induction w) auto

lemma count_words_space_mid:
  "isSpace c \<Longrightarrow> count_words b (u @ c # v) = count_words b u + count_words False v"
  by (induction u arbitrary: b) auto

lemma count_words_dropWhile: "count_words False (dropWhile isSpace s) = count_words False s"
  by (induction s) auto

lemma count_words_flag:
  "count_words False s = count_words True s + (if s = [] \<or> isSpace (hd s) then 0 else 1)"
  by (cases s) auto

lemma count_words_snoc:
  "count_words b (s @ [c]) =
     count_words b s +
     (if \<not> isSpace c \<and> (if s = [] then \<not> b else isSpace (last s)) then 1 else 0)"
  by (induction s arbitrary: b) auto

lemma count_words_rev_dropWhile:
  "count_words b (rev (dropWhile isSpace (rev s))) = count_words b s"
proof (induction s rule: rev_induct)
  case Nil
  show ?case by simp
next
  case (snoc c s)
  then show ?case by (simp add: count_words_snoc)
qed

lemma count_words_trim: "count_words False (trim s) = count_words False s"
  by (simp add: trim_def count_words_rev_dropWhile count_words_dropWhile)

lemma count_words_no_space: "\<forall>c\<in>set s. \<not> isSpace c \<Longrightarrow> count_words True s = 0"
  by (induction s) auto

lemma count_words_single:
  assumes "s \<noteq> []" and "\<forall>c\<in>set s. \<not> isSpace c"
  shows "count_words False s = 1"
proof (cases s)
  case Nil
  with assms show ?thesis by simp
next
  case (Cons c cs)
  with assms have "\<not> isSpace c" and "\<forall>c\<in>set cs. \<not> isSpace c" by simp_all
  then show ?thesis using Cons by (simp add: count_words_no_space)
qed

lemma count_words_le_filter: "count_words b s \<le> length (filter (\<lambda>c. \<not> isSpace c) s)"
proof (induction s arbitrary: b)
  case Nil
  show ?case by simp
next
  case (Cons c cs)
  have "count_words True cs \<le> length (filter (\<lambda>c. \<not> isSpace c) cs)"
    and "count_words False cs \<le> length (filter (\<lambda>c. \<not> isSpace c) cs)"
    by (rule Cons.IH)+
  then show ?case by (cases b) auto
qed

lemma count_words_map_isSpace:
  "map isSpace s = map isSpace t \<Longrightarrow> count_words b s = count_words b t"
proof (induction s arbitrary: t b)
  case Nil
  then show ?case by simp
next
  case (Cons c cs)
  then obtain d ds where t: "t = d # ds" and "isSpace c = isSpace d"
    and "map isSpace cs = map isSpace ds" by (cases t) auto
  then show ?case using Cons.IH[of ds] by simp
qed

section \<open>Splitting at white space\<close>

lemma match_space_plus_Cons:
  "match_space_plus (c # cs) =
     (if isSpace c then Some (Suc (length (takeWhile isSpace cs))) else None)"
  by (simp add: match_space_plus_def)

lemma drop_length_takeWhile: "drop (length (takeWhile P xs)) xs = dropWhile P xs"
  by (induction xs) auto

lemma split_loop_space:
  "isSpace c \<Longrightarrow> split_loop tok (c # cs) = tok # split_loop [] (dropWhile isSpace cs)"
  by (simp add: match_space_plus_Cons drop_length_takeWhile)

lemma split_loop_other:
  "\<not> isSpace c \<Longrightarrow> split_loop tok (c # cs) = split_loop (tok @ [c]) cs"
  by (simp add: match_space_plus_Cons)

lemma last_after_space:
  assumes "isSpace c"
  shows "dropWhile isSpace cs = [] \<Longrightarrow> isSpace (last (c # cs))"
    and "dropWhile isSpace cs \<noteq> [] \<Longrightarrow> last (c # cs) = last (dropWhile isSpace cs)"
proof -
  show "isSpace (last (c # cs))" if "dropWhile isSpace cs = []"
    using that assms by (cases "cs = []") simp_all
  show "last (c # cs) = last (dropWhile isSpace cs)" if "dropWhile isSpace cs \<noteq> []"
  proof -
    from that have "cs \<noteq> []" by auto
    then show ?thesis using that by (simp add: last_dropWhile)
  qed
qed

lemma length_split_loop:
  "length (split_loop tok s) =
     Suc (count_words True s) + (if s \<noteq> [] \<and> isSpace (last s) then 1 else 0)"
proof (induction tok s rule: split_loop.induct)
  case (1 tok)
  show ?case by simp
next
  case (2 tok c cs)
  show ?case
  proof (cases "isSpace c")
    case False
    with 2 show ?thesis by (simp add: match_space_plus_Cons)
  next
    case True
    define r where "r = dropWhile isSpace cs"
    have m: "match_space_plus (c # cs) = Some (Suc (length (takeWhile isSpace cs)))"
      using True by (simp add: match_space_plus_Cons)
    have d: "drop (Suc (length (takeWhile isSpace cs))) (c # cs) = r"
      by (simp add: r_def drop_length_takeWhile)
    have ih: "length (split_loop [] r) =
        Suc (count_words True r) + (if r \<noteq> [] \<and> isSpace (last r) then 1 else 0)"
      using "2.IH"(2)[OF m] unfolding d .
    have c1: "count_words True (c # cs) = count_words False r"
      using True by (simp add: r_def count_words_dropWhile)
    have "r \<noteq> [] \<Longrightarrow> \<not> isSpace (hd r)"
      unfolding r_def by (metis hd_dropWhile)
    then have c2: "count_words False r = count_words True r + (if r = [] then 0 else 1)"
      by (simp add: count_words_flag)
    have sp: "split_loop tok (c # cs) = tok # split_loop [] r"
      using True by (simp add: r_def split_loop_space del: split_loop.simps)
    show ?thesis
    proof (cases "r = []")
      case True
      with \<open>isSpace c\<close> have "isSpace (last (c # cs))"
        unfolding r_def by (simp add: last_after_space(1) del: last.simps)
      with True ih c1 c2 show ?thesis unfolding sp by simp
    next
      case False
      with \<open>isSpace c\<close> have "last (c # cs) = last r"
        unfolding r_def by (simp add: last_after_space(2) del: last.simps)
      with False ih c1 c2 show ?thesis unfolding sp by simp
    qed
  qed
qed

lemma empty_token_split_loop:
  "[] \<in> set (split_loop tok s) \<Longrightarrow>
     (tok = [] \<and> (s = [] \<or> isSpace (hd s))) \<or> (s \<noteq> [] \<and> isSpace (last s))"
proof (induction tok s rule: split_loop.induct)
  case (1 tok)
  then show ?case by simp
next
  case (2 tok c cs)
  show ?case
  proof (cases "isSpace c")
    case False
    then have m: "match_space_plus (c # cs) = None" by (simp add: match_space_plus_Cons)
    from "2.prems" False have "[] \<in> set (split_loop (tok @ [c]) cs)"
      by (simp add: split_loop_other del: split_loop.simps)
    from "2.IH"(1)[OF m this] have "cs \<noteq> [] \<and> isSpace (last cs)" by simp
    then show ?thesis by simp
  next
    case True
    define r where "r = dropWhile isSpace cs"
    have m: "match_space_plus (c # cs) = Some (Suc (length (takeWhile isSpace cs)))"
      using True by (simp add: match_space_plus_Cons)
    have d: "drop (Suc (length (takeWhile isSpace cs))) (c # cs) = r"
      by (simp add: r_def drop_length_takeWhile)
    have nohd: "r \<noteq> [] \<Longrightarrow> \<not> isSpace (hd r)"
      unfolding r_def by (metis hd_dropWhile)
    from "2.prems" True have "tok = [] \<or> [] \<in> set (split_loop [] r)"
      by (auto simp add: r_def split_loop_space simp del: split_loop.simps)
    then show ?thesis
    proof
      assume "tok = []"
      with True show ?thesis by simp
    next
      assume "[] \<in> set (split_loop [] r)"
      with "2.IH"(2)[OF m] have "r = [] \<or> isSpace (hd r) \<or> (r \<noteq> [] \<and> isSpace (last r))"
        unfolding d by blast
      with nohd have "r = [] \<or> (r \<noteq> [] \<and> isSpace (last r))" by blast
      then have "isSpace (last (c # cs))"
        using last_after_space[OF True, of cs] unfolding r_def by metis
      then show ?thesis by blast
    qed
  qed
qed

lemma length_split_trim:
  assumes "trim s \<noteq> []"
  shows "length (split_space (trim s)) = count_words False s"
proof -
  have "length (split_space (trim s)) = Suc (count_words True (trim s))"
    using assms trim_ends[OF assms] by (simp add: split_space_def length_split_loop)
  also have "\<dots> = count_words False (trim s)"
    using assms trim_ends(1)[OF assms] by (simp add: count_words_flag)
  finally show ?thesis by (simp add: count_words_trim)
qed

lemma no_empty_token_split_trim:
  assumes "trim s \<noteq> []"
  shows "[] \<notin> set (split_space (trim s))"
proof
  assume "[] \<in> set (split_space (trim s))"
  with assms have "[] \<in> set (split_loop [] (trim s))" by (simp add: split_space_def)
  from empty_token_split_loop[OF this] assms trim_ends[OF assms] show False by blast
qed

section \<open>The three functions on strings and on absent values\<close>

lemma in_domain_cases:
  assumes "in_domain text"
  obtains "text = Undefined" | "text = Null" | s where "text = Str s"
  using assms by (cases "text") simp_all

lemma wordCount_Undefined: "wordCount Undefined = Inr 0"
  by (simp add: wordCount_def)

lemma wordCount_Null: "wordCount Null = Inr 0"
  by (simp add: wordCount_def)

lemma wordCount_Str: "wordCount (Str s) = Inr (count_words False s)"
proof (cases "trim s = []")
  case True
  then have "count_words False s = 0" by (simp add: trim_Nil_iff count_words_all_space)
  with True show ?thesis by (simp add: wordCount_def)
next
  case False
  then have "s \<noteq> []" by (auto simp: trim_def)
  with False show ?thesis by (simp add: wordCount_def length_split_trim)
qed

lemma wordCount_Bool: "wordCount (Bool b) = (if b then Inl TypeError else Inr 0)"
  by (simp add: wordCount_def)

lemma replace_space_Nil: "replace_space [] s = filter (\<lambda>c. \<not> isSpace c) s"
  by (induction s) auto

lemma charCount_Undefined: "charCount Undefined = Inr 0"
  by (simp add: charCount_def)

lemma charCount_Null: "charCount Null = Inr 0"
  by (simp add: charCount_def)

lemma charCount_Str: "charCount (Str s) = Inr (length (filter (\<lambda>c. \<not> isSpace c) s))"
  by (simp add: charCount_def replace_space_Nil)

lemma charCount_Bool: "charCount (Bool b) = (if b then Inl TypeError else Inr 0)"
  by (simp add: charCount_def)

lemma readingTime_Inr:
  "wordCount text = Inr w \<Longrightarrow> readingTime text = Inr \<lceil>real w / 200\<rceil>"
  by (simp add: readingTime_def WORDS_PER_MINUTE_def)

lemma wordCount_total: "in_domain text \<Longrightarrow> \<exists>w. wordCount text = Inr w"
  by (erule in_domain_cases) (simp_all add: wordCount_Undefined wordCount_Null wordCount_Str)

lemma ceiling_200_bounds:
  fixes w :: nat
  defines "r \<equiv> \<lceil>real w / 200\<rceil>"
  shows "200 * (r - 1) < int w" and "int w \<le> 200 * r"
proof -
  have "real_of_int r - 1 < real w / 200" and "real w / 200 \<le> real_of_int r"
    unfolding r_def by linarith+
  then have "real_of_int (200 * (r - 1)) < real_of_int (int w)"
    and "real_of_int (int w) \<le> real_of_int (200 * r)"
    by simp_all
  then show "200 * (r - 1) < int w" and "int w \<le> 200 * r"
    by (simp_all only: of_int_less_iff of_int_le_iff)
qed

lemma ceiling_200_zero_iff: "\<lceil>real w / 200\<rceil> = 0 \<longleftrightarrow> w = 0"
  using ceiling_200_bounds[of w] by auto

section \<open>Maximal runs\<close>

lemma set_maximal_runs: "set (maximal_runs s) = {(i, j). maximal_run s i j}"
  by (auto simp: maximal_runs_def maximal_run_def)

lemma distinct_maximal_runs: "distinct (maximal_runs s)"
  by (simp add: maximal_runs_def distinct_product)

lemma maximal_run_end:
  assumes "maximal_run s i j"
  shows "word_start s i" and "j = run_end s i"
proof -
  from assms have ij: "i < j" "j \<le> length s"
    and run: "\<forall>k\<in>{i..<j}. \<not> isSpace (s ! k)"
    and left: "i = 0 \<or> isSpace (s ! (i - 1))"
    and right: "j = length s \<or> isSpace (s ! j)"
    by (auto simp: maximal_run_def)
  from ij run have "\<not> isSpace (s ! i)" by simp
  with ij left show "word_start s i" by (simp add: word_start_def)
  let ?xs = "drop i s"
  have a: "\<not> isSpace (?xs ! k)" if "k < j - i" for k using that ij run by simp
  have b: "\<not> \<not> isSpace (?xs ! (j - i))" if "j - i < length ?xs" using that ij right by auto
  have "takeWhile (\<lambda>c. \<not> isSpace c) ?xs = take (j - i) ?xs"
    by (rule takeWhile_eq_take_P_nth) (use a b in auto)
  then show "j = run_end s i" using ij by (simp add: run_end_def)
qed

lemma word_start_run:
  assumes "word_start s i"
  shows "maximal_run s i (run_end s i)"
proof -
  let ?P = "\<lambda>c. \<not> isSpace c"
  let ?xs = "drop i s"
  let ?n = "length (takeWhile ?P ?xs)"
  from assms have i: "i < length s" "\<not> isSpace (s ! i)" "i = 0 \<or> isSpace (s ! (i - 1))"
    by (auto simp: word_start_def)
  have xs: "?xs = s ! i # drop (Suc i) s" using i(1) by (simp add: Cons_nth_drop_Suc)
  have pos: "0 < ?n" using i(2) by (subst xs) simp
  have le: "?n \<le> length ?xs" by (rule length_takeWhile_le)
  have inner: "\<not> isSpace (s ! k)" if "k \<in> {i..<i + ?n}" for k
  proof -
    from that have k: "k - i < ?n" "i \<le> k" by auto
    then have "takeWhile ?P ?xs ! (k - i) = ?xs ! (k - i)" by (simp add: takeWhile_nth)
    moreover have "takeWhile ?P ?xs ! (k - i) \<in> set (takeWhile ?P ?xs)" using k by simp
    ultimately have "?P (?xs ! (k - i))" by (metis set_takeWhileD)
    then show ?thesis using k le by simp
  qed
  have right: "i + ?n = length s \<or> isSpace (s ! (i + ?n))"
  proof (cases "?n < length ?xs")
    case True
    then have "\<not> ?P (?xs ! ?n)" by (rule nth_length_takeWhile)
    then show ?thesis using True by simp
  next
    case False
    with le i(1) show ?thesis by simp
  qed
  show ?thesis
    unfolding maximal_run_def run_end_def using pos le i inner right by auto
qed

lemma runs_image: "{(i, j). maximal_run s i j} = (\<lambda>i. (i, run_end s i)) ` {i. word_start s i}"
  by (auto simp: image_iff dest: maximal_run_end intro: word_start_run)

lemma finite_starts: "finite {i. word_start s i}"
  by (rule finite_subset[of _ "{..<length s}"]) (auto simp: word_start_def)

lemma starts_snoc:
  "{i. word_start (s @ [c]) i} =
     {i. word_start s i} \<union>
     (if \<not> isSpace c \<and> (s = [] \<or> isSpace (last s)) then {length s} else {})"
proof -
  have old: "word_start (s @ [c]) i \<longleftrightarrow> word_start s i" if "i < length s" for i
    using that by (cases i) (auto simp: word_start_def nth_append)
  have new: "word_start (s @ [c]) (length s) \<longleftrightarrow> \<not> isSpace c \<and> (s = [] \<or> isSpace (last s))"
    by (cases "s = []") (auto simp: word_start_def nth_append last_conv_nth)
  have bound: "i \<le> length s" if "word_start (s @ [c]) i" for i
    using that by (simp add: word_start_def)
  have bound': "i < length s" if "word_start s i" for i
    using that by (simp add: word_start_def)
  show ?thesis
  proof (rule set_eqI)
    fix i
    show "i \<in> {i. word_start (s @ [c]) i} \<longleftrightarrow>
          i \<in> {i. word_start s i} \<union>
            (if \<not> isSpace c \<and> (s = [] \<or> isSpace (last s)) then {length s} else {})"
    proof (cases "i < length s")
      case True
      then show ?thesis using old[OF True] by auto
    next
      case False
      then show ?thesis using new bound[of i] bound'[of i] by (cases "i = length s") auto
    qed
  qed
qed

lemma starts_Nil: "{i. word_start [] i} = {}"
  by (simp add: word_start_def)

lemma card_starts: "card {i. word_start s i} = count_words False s"
proof (induction s rule: rev_induct)
  case Nil
  show ?case by (simp add: word_start_def)
next
  case (snoc c s)
  have "length s \<notin> {i. word_start s i}" by (simp add: word_start_def)
  then have step: "card {i. word_start (s @ [c]) i} =
      card {i. word_start s i} + (if \<not> isSpace c \<and> (s = [] \<or> isSpace (last s)) then 1 else 0)"
    unfolding starts_snoc by (simp add: finite_starts)
  have "count_words False (s @ [c]) =
      count_words False s + (if \<not> isSpace c \<and> (s = [] \<or> isSpace (last s)) then 1 else 0)"
    unfolding count_words_snoc by simp
  with step snoc show ?case by (simp only:)
qed

lemma length_maximal_runs: "length (maximal_runs s) = count_words False s"
proof -
  have "length (maximal_runs s) = card (set (maximal_runs s))"
    by (simp add: distinct_card distinct_maximal_runs)
  also have "\<dots> = card ((\<lambda>i. (i, run_end s i)) ` {i. word_start s i})"
    by (simp add: set_maximal_runs runs_image)
  also have "\<dots> = card {i. word_start s i}"
    by (rule card_image) (simp add: inj_on_def)
  finally show ?thesis by (simp add: card_starts)
qed

section \<open>Tokens after collapsing white space\<close>

lemma count_words_collapse: "count_words b (collapse_space s) = count_words b s"
  by (induction s arbitrary: b rule: collapse_space.induct)
     (simp_all add: isSpace_SP count_words_dropWhile)

lemma collapse_space_only_SP: "c \<in> set (collapse_space s) \<Longrightarrow> isSpace c \<Longrightarrow> c = 0x0020"
  by (induction s rule: collapse_space.induct) (auto split: if_splits)

lemma length_separate:
  assumes "\<forall>c\<in>set s. isSpace c \<longrightarrow> c = 0x0020"
  shows "length (filter (\<lambda>t. t \<noteq> []) (separate tok s)) =
     count_words (tok \<noteq> []) s + (if tok \<noteq> [] then 1 else 0)"
  using assms
proof (induction tok s rule: separate.induct)
  case (1 tok)
  show ?case by simp
next
  case (2 tok c cs)
  from "2.prems" have rest: "\<forall>c\<in>set cs. isSpace c \<longrightarrow> c = 0x0020" by simp
  show ?case
  proof (cases "c = 0x0020")
    case True
    then have sp: "isSpace c" by (simp add: isSpace_SP)
    have "length (filter (\<lambda>t. t \<noteq> []) (separate [] cs)) = count_words False cs"
      using "2.IH"(1)[OF True rest] by simp
    with True sp show ?thesis by simp
  next
    case False
    with "2.prems" have ns: "\<not> isSpace c" by auto
    have "length (filter (\<lambda>t. t \<noteq> []) (separate (tok @ [c]) cs)) = count_words True cs + 1"
      using "2.IH"(2)[OF False rest] by simp
    with False ns show ?thesis by simp
  qed
qed

lemma length_tokens: "length (tokens s) = count_words False s"
proof -
  have "\<forall>c\<in>set (collapse_space (trim s)). isSpace c \<longrightarrow> c = 0x0020"
    by (blast dest: collapse_space_only_SP)
  from length_separate[OF this, of "[]"] show ?thesis
    by (simp add: tokens_def count_words_collapse count_words_trim)
qed

lemma count_words_word_space:
  "count_words False (utf16 ''word '' @ s) = Suc (count_words False s)"
proof -
  have "\<not> isSpace 0x77" and "\<not> isSpace 0x6F" and "\<not> isSpace 0x72" and "\<not> isSpace 0x64"
    by (simp_all add: isSpace_def isWhiteSpace_def isLineTerminator_def)
  then show ?thesis by (simp add: utf16_def isSpace_SP)
qed

lemma wordCount_repeat_word: "wordCount (Str (repeat_word n)) = Inr n"
proof -
  have "count_words False (concat (replicate n (utf16 ''word ''))) = n"
    by (induction n) (simp_all add: count_words_word_space del: append_Cons)
  then show ?thesis
    by (simp add: wordCount_Str repeat_word_def count_words_trim)
qed

section \<open>Reading time\<close>

text \<open>
  C1. For every input of the domain (a string, the empty string, a string of white space
  only, an absent or null value), \<open>readingTime(text)\<close> is the ceiling of
  \<open>wordCount(text)\<close> divided by 200: it is the integer \<open>r\<close> with
  \<open>200 (r - 1) < wordCount(text) \<le> 200 r\<close>.  In particular 200 words give 1, 201 words
  give 2 and no word gives 0.
\<close>

theorem readingTime_ceiling:
  assumes "in_domain text"
  shows "\<exists>w r. wordCount text = Inr w \<and> readingTime text = Inr r \<and>
           r = \<lceil>real w / 200\<rceil> \<and> 200 * (r - 1) < int w \<and> int w \<le> 200 * r \<and>
           (w = 200 \<longrightarrow> r = 1) \<and> (w = 201 \<longrightarrow> r = 2) \<and> (w = 0 \<longrightarrow> r = 0)"
proof -
  from assms obtain w where w: "wordCount text = Inr w"
    using wordCount_total by blast
  define r where "r = \<lceil>real w / 200\<rceil>"
  have rt: "readingTime text = Inr r"
    using w by (simp add: r_def readingTime_Inr)
  have b: "200 * (r - 1) < int w" "int w \<le> 200 * r"
    unfolding r_def by (rule ceiling_200_bounds)+
  have "w = 200 \<longrightarrow> r = 1" and "w = 201 \<longrightarrow> r = 2" and "w = 0 \<longrightarrow> r = 0"
    using b by auto
  with w rt b show ?thesis unfolding r_def by blast
qed

theorem readingTime_ceiling_witness:
  "in_domain (Str (repeat_word 200)) \<and> wordCount (Str (repeat_word 200)) = Inr 200 \<and>
   readingTime (Str (repeat_word 200)) = Inr 1 \<and>
   in_domain (Str (repeat_word 201)) \<and> wordCount (Str (repeat_word 201)) = Inr 201 \<and>
   readingTime (Str (repeat_word 201)) = Inr 2 \<and>
   in_domain (Str []) \<and> wordCount (Str []) = Inr 0 \<and> readingTime (Str []) = Inr 0"
proof -
  have w200: "wordCount (Str (repeat_word 200)) = Inr 200" by (rule wordCount_repeat_word)
  have w201: "wordCount (Str (repeat_word 201)) = Inr 201" by (rule wordCount_repeat_word)
  have w0: "wordCount (Str []) = Inr 0" by code_simp
  have d: "in_domain (Str (repeat_word 200))" "in_domain (Str (repeat_word 201))"
    "in_domain (Str [])" by simp_all
  have "readingTime (Str (repeat_word 200)) = Inr 1"
    using readingTime_ceiling[OF d(1)] w200 by auto
  moreover have "readingTime (Str (repeat_word 201)) = Inr 2"
    using readingTime_ceiling[OF d(2)] w201 by auto
  moreover have "readingTime (Str []) = Inr 0"
    using readingTime_ceiling[OF d(3)] w0 by auto
  ultimately show ?thesis using w200 w201 w0 d by blast
qed

text \<open>
  C10. For every input of the domain, \<open>readingTime(text) = 0\<close> exactly when
  \<open>wordCount(text) = 0\<close>; an input with at least one word has a reading time of at least
  one minute.
\<close>

theorem readingTime_zero_iff:
  assumes "in_domain text"
  shows "\<exists>w r. wordCount text = Inr w \<and> readingTime text = Inr r \<and>
           (r = 0 \<longleftrightarrow> w = 0) \<and> (0 < w \<longrightarrow> 1 \<le> r)"
proof -
  from assms obtain w where w: "wordCount text = Inr w"
    using wordCount_total by blast
  then have rt: "readingTime text = Inr \<lceil>real w / 200\<rceil>"
    by (rule readingTime_Inr)
  have z: "\<lceil>real w / 200\<rceil> = 0 \<longleftrightarrow> w = 0"
    by (rule ceiling_200_zero_iff)
  have "0 < w \<longrightarrow> 1 \<le> \<lceil>real w / 200\<rceil>"
    using ceiling_200_bounds(1)[of w] by auto
  with w rt z show ?thesis by blast
qed

theorem readingTime_zero_iff_witness:
  "in_domain (Str (utf16 ''hello world'')) \<and>
   wordCount (Str (utf16 ''hello world'')) = Inr 2 \<and>
   readingTime (Str (utf16 ''hello world'')) \<noteq> Inr 0 \<and>
   in_domain Null \<and> wordCount Null = Inr 0 \<and> readingTime Null = Inr 0"
proof -
  have d: "in_domain (Str (utf16 ''hello world''))" "in_domain Null" by simp_all
  have w2: "wordCount (Str (utf16 ''hello world'')) = Inr 2" by code_simp
  have w0: "wordCount Null = Inr 0" by code_simp
  have "readingTime (Str (utf16 ''hello world'')) \<noteq> Inr 0"
    using readingTime_zero_iff[OF d(1)] w2 by auto
  moreover have "readingTime Null = Inr 0"
    using readingTime_zero_iff[OF d(2)] w0 by auto
  ultimately show ?thesis using d w2 w0 by blast
qed

section \<open>Word count\<close>

text \<open>
  C2. \<open>wordCount(text)\<close> is 0 when the input is absent, null, empty or made of white
  space only (tabs and newlines are white space); for every string it is the number
  of maximal runs of characters that are not white space, which is also the number of
  non-empty tokens left after trimming, collapsing each run of white space into one
  separator and cutting at the separators.
\<close>

theorem wordCount_maximal_runs:
  "wordCount Undefined = Inr 0 \<and> wordCount Null = Inr 0 \<and> wordCount (Str []) = Inr 0 \<and>
   ((\<forall>c\<in>set s. isSpace c) \<longrightarrow> wordCount (Str s) = Inr 0) \<and>
   isSpace 0x0020 \<and> isSpace 0x0009 \<and> isSpace 0x000A \<and>
   wordCount (Str s) = Inr (card {(i, j). maximal_run s i j}) \<and>
   wordCount (Str s) = Inr (length (maximal_runs s)) \<and>
   wordCount (Str s) = Inr (length (tokens s))"
proof -
  have "card {(i, j). maximal_run s i j} = length (maximal_runs s)"
    using distinct_card[OF distinct_maximal_runs, of s] by (simp add: set_maximal_runs)
  moreover have "(\<forall>c\<in>set s. isSpace c) \<longrightarrow> wordCount (Str s) = Inr 0"
    by (simp add: wordCount_Str count_words_all_space)
  ultimately show ?thesis
    by (simp add: wordCount_Undefined wordCount_Null wordCount_Str length_maximal_runs
        length_tokens isSpace_SP isSpace_TAB isSpace_LF)
qed

theorem wordCount_maximal_runs_witness:
  "wordCount (Str (utf16 '' The fox'' @ [0x0009, 0x000A] @ utf16 ''is   red '')) = Inr 4 \<and>
   maximal_runs (utf16 '' The fox'' @ [0x0009, 0x000A] @ utf16 ''is   red '') =
     [(1, 4), (5, 8), (10, 12), (15, 18)] \<and>
   tokens (utf16 '' The fox'' @ [0x0009, 0x000A] @ utf16 ''is   red '') =
     [utf16 ''The'', utf16 ''fox'', utf16 ''is'', utf16 ''red''] \<and>
   list_all isSpace [0x0020, 0x0009, 0x000A] \<and>
   wordCount (Str [0x0020, 0x0009, 0x000A]) = Inr 0"
proof -
  let ?s = "utf16 '' The fox'' @ [0x0009, 0x000A] @ utf16 ''is   red ''"
  have r: "maximal_runs ?s = [(1, 4), (5, 8), (10, 12), (15, 18)]" by code_simp
  have t: "tokens ?s = [utf16 ''The'', utf16 ''fox'', utf16 ''is'', utf16 ''red'']"
    by code_simp
  have sp: "\<forall>c\<in>set [0x0020, 0x0009, 0x000A]. isSpace c" by code_simp
  have "wordCount (Str ?s) = Inr (length (maximal_runs ?s))"
    using wordCount_maximal_runs[of ?s] by blast
  then have "wordCount (Str ?s) = Inr 4" unfolding r by simp
  moreover have "wordCount (Str [0x0020, 0x0009, 0x000A]) = Inr 0"
    using wordCount_maximal_runs[of "[0x0020, 0x0009, 0x000A]"] sp by blast
  ultimately show ?thesis using r t sp by (simp add: list_all_iff)
qed

text \<open>
  C5. Inserting further white space into the white space between two words does not
  change \<open>wordCount\<close>: for a separator \<open>sep1 @ sep2\<close> that is not empty and white space
  \<open>extra\<close> put anywhere in it, the count stays the same, and splitting the trimmed
  string yields no empty token.
\<close>

theorem wordCount_extra_space:
  assumes "\<forall>c\<in>set sep1. isSpace c" and "\<forall>c\<in>set sep2. isSpace c"
    and "sep1 @ sep2 \<noteq> []" and "\<forall>c\<in>set extra. isSpace c"
  shows "wordCount (Str (u @ sep1 @ extra @ sep2 @ v)) = wordCount (Str (u @ sep1 @ sep2 @ v)) \<and>
         (trim (u @ sep1 @ extra @ sep2 @ v) \<noteq> [] \<longrightarrow>
            [] \<notin> set (split_space (trim (u @ sep1 @ extra @ sep2 @ v))))"
proof -
  have block: "count_words False (u @ w @ v) = count_words False u + count_words False v"
    if "w \<noteq> []" and "\<forall>c\<in>set w. isSpace c" for w
  proof -
    from that obtain c w' where w: "w = c # w'" and "isSpace c" and "\<forall>c\<in>set w'. isSpace c"
      by (cases w) auto
    then show ?thesis
      by (simp add: count_words_space_mid count_words_space_prefix)
  qed
  have "count_words False (u @ (sep1 @ extra @ sep2) @ v) =
        count_words False u + count_words False v"
    using assms by (intro block) auto
  moreover have "count_words False (u @ (sep1 @ sep2) @ v) =
        count_words False u + count_words False v"
    using assms by (intro block) auto
  ultimately have "wordCount (Str (u @ sep1 @ extra @ sep2 @ v)) =
      wordCount (Str (u @ sep1 @ sep2 @ v))"
    by (simp add: wordCount_Str)
  then show ?thesis by (simp add: no_empty_token_split_trim)
qed

theorem wordCount_extra_space_witness:
  "list_all isSpace (utf16 '' '') \<and> list_all isSpace [] \<and>
   utf16 '' '' @ [] \<noteq> [] \<and> list_all isSpace (utf16 ''  '' @ [0x0009]) \<and>
   wordCount (Str (utf16 ''hello'' @ utf16 '' '' @ [] @ utf16 ''world'')) = Inr 2 \<and>
   wordCount (Str (utf16 ''hello'' @ utf16 '' '' @ (utf16 ''  '' @ [0x0009]) @ [] @ utf16 ''world''))
     = Inr 2 \<and>
   split_space (trim (utf16 ''hello'' @ utf16 '' '' @ (utf16 ''  '' @ [0x0009]) @ [] @ utf16 ''world''))
     = [utf16 ''hello'', utf16 ''world'']"
proof -
  have h1: "\<forall>c\<in>set (utf16 '' ''). isSpace c" by code_simp
  have h2: "\<forall>c\<in>set ([] :: jsstring). isSpace c" by simp
  have h3: "utf16 '' '' @ [] \<noteq> []" by (simp add: utf16_def)
  have h4: "\<forall>c\<in>set (utf16 ''  '' @ [0x0009]). isSpace c" by code_simp
  have before: "wordCount (Str (utf16 ''hello'' @ utf16 '' '' @ [] @ utf16 ''world'')) = Inr 2"
    by code_simp
  have toks: "split_space (trim (utf16 ''hello'' @ utf16 '' '' @ (utf16 ''  '' @ [0x0009]) @ []
      @ utf16 ''world'')) = [utf16 ''hello'', utf16 ''world'']"
    by code_simp
  have "wordCount (Str (utf16 ''hello'' @ utf16 '' '' @ (utf16 ''  '' @ [0x0009]) @ []
      @ utf16 ''world'')) = Inr 2"
    using wordCount_extra_space[OF h1 h2 h3 h4, of "utf16 ''hello''" "utf16 ''world''"] before
    by simp
  then show ?thesis using h1 h2 h3 h4 before toks by (simp add: list_all_iff)
qed

text \<open>
  C6. A non-empty string without white space is one word: \<open>wordCount\<close> returns 1, also
  when white space surrounds the word.
\<close>

theorem wordCount_single_word:
  assumes "w \<noteq> []" and "\<forall>c\<in>set w. \<not> isSpace c"
    and "\<forall>c\<in>set pre. isSpace c" and "\<forall>c\<in>set post. isSpace c"
  shows "wordCount (Str w) = Inr 1 \<and> wordCount (Str (pre @ w @ post)) = Inr 1"
proof -
  have one: "count_words False w = 1"
    using assms(1,2) by (rule count_words_single)
  have "count_words False (pre @ w @ post) = count_words False (w @ post)"
    using assms(3) by (rule count_words_space_prefix)
  also have "\<dots> = count_words False (rev (dropWhile isSpace (rev (w @ post))))"
    by (simp only: count_words_rev_dropWhile)
  also have "rev (dropWhile isSpace (rev (w @ post))) = w"
  proof -
    have "dropWhile isSpace (rev post @ rev w) = dropWhile isSpace (rev w)"
      using assms(4) by (simp add: dropWhile_append)
    moreover have "dropWhile isSpace (rev w) = rev w"
      using assms(1,2) by (cases "rev w") (auto dest: arg_cong[of _ _ set])
    ultimately show ?thesis by simp
  qed
  finally show ?thesis using one by (simp add: wordCount_Str)
qed

theorem wordCount_single_word_witness:
  "utf16 ''hello'' \<noteq> [] \<and> list_all (\<lambda>c. \<not> isSpace c) (utf16 ''hello'') \<and>
   list_all isSpace [0x0020, 0x0009] \<and> list_all isSpace [0x000A] \<and>
   wordCount (Str (utf16 ''hello'')) = Inr 1 \<and>
   wordCount (Str ([0x0020, 0x0009] @ utf16 ''hello'' @ [0x000A])) = Inr 1"
proof -
  have h1: "utf16 ''hello'' \<noteq> []" by (simp add: utf16_def)
  have h2: "\<forall>c\<in>set (utf16 ''hello''). \<not> isSpace c" by code_simp
  have h3: "\<forall>c\<in>set [0x0020, 0x0009]. isSpace c" by code_simp
  have h4: "\<forall>c\<in>set [0x000A]. isSpace c" by code_simp
  from wordCount_single_word[OF h1 h2 h3 h4] h1 h2 h3 h4 show ?thesis
    by (simp add: list_all_iff)
qed

text \<open>
  C7. Tokens are cut at white space only and punctuation has no special case: the count
  depends on nothing but which positions hold white space, and a string of punctuation
  marks only, such as a lone hyphen, counts as one word.
\<close>

theorem wordCount_punctuation:
  "(p \<noteq> [] \<and> (\<forall>c\<in>set p. isPunctuation c) \<longrightarrow> wordCount (Str p) = Inr 1) \<and>
   (map isSpace s = map isSpace t \<longrightarrow> wordCount (Str s) = wordCount (Str t))"
proof -
  have "wordCount (Str p) = Inr 1" if "p \<noteq> []" and "\<forall>c\<in>set p. isPunctuation c"
  proof -
    from that(2) have "\<forall>c\<in>set p. \<not> isSpace c"
      by (blast dest: isPunctuation_not_space)
    with that(1) show ?thesis by (simp add: wordCount_Str count_words_single)
  qed
  moreover have "wordCount (Str s) = wordCount (Str t)" if "map isSpace s = map isSpace t"
    using count_words_map_isSpace[OF that] by (simp add: wordCount_Str)
  ultimately show ?thesis by blast
qed

theorem wordCount_punctuation_witness:
  "[0x002D] \<noteq> [] \<and> list_all isPunctuation [0x002D] \<and> wordCount (Str [0x002D]) = Inr 1 \<and>
   map isSpace (utf16 ''a - b'') = map isSpace (utf16 ''a x b'') \<and>
   wordCount (Str (utf16 ''a x b'')) = Inr 3 \<and> wordCount (Str (utf16 ''a - b'')) = Inr 3"
proof -
  have h1: "[0x002D :: code_unit] \<noteq> []" by simp
  have h2: "\<forall>c\<in>set [0x002D]. isPunctuation c" by code_simp
  have h3: "map isSpace (utf16 ''a - b'') = map isSpace (utf16 ''a x b'')" by code_simp
  have x: "wordCount (Str (utf16 ''a x b'')) = Inr 3" by code_simp
  have "wordCount (Str [0x002D]) = Inr 1"
    using wordCount_punctuation[of "[0x002D]"] h1 h2 by blast
  moreover have "wordCount (Str (utf16 ''a - b'')) = Inr 3"
    using wordCount_punctuation[of _ "utf16 ''a - b''" "utf16 ''a x b''"] h3 x by simp
  ultimately show ?thesis using h1 h2 h3 x by (simp add: list_all_iff)
qed

section \<open>Character count\<close>

text \<open>
  C3. \<open>charCount(text)\<close> is 0 when the input is absent, null or empty; for every string
  it is the number of characters that are not white space, that is the length of the
  string after removing every white space character (space, tab, newline and the other
  white space).  A string of white space only gives 0.
\<close>

theorem charCount_without_space:
  "charCount Undefined = Inr 0 \<and> charCount Null = Inr 0 \<and> charCount (Str []) = Inr 0 \<and>
   charCount (Str s) = Inr (length (without_space s)) \<and>
   charCount (Str s) = Inr (card {i. i < length s \<and> \<not> isSpace (s ! i)}) \<and>
   set (without_space s) = {c \<in> set s. \<not> isSpace c} \<and>
   isSpace 0x0020 \<and> isSpace 0x0009 \<and> isSpace 0x000A \<and>
   ((\<forall>c\<in>set s. isSpace c) \<longrightarrow> charCount (Str s) = Inr 0)"
proof -
  have "length (without_space s) = card {i. i < length s \<and> \<not> isSpace (s ! i)}"
    unfolding without_space_def by (rule length_filter_conv_card)
  moreover have "(\<forall>c\<in>set s. isSpace c) \<longrightarrow> without_space s = []"
    by (simp add: without_space_def filter_empty_conv)
  ultimately show ?thesis
    by (auto simp: charCount_Undefined charCount_Null charCount_Str without_space_def
        isSpace_SP isSpace_TAB isSpace_LF)
qed

theorem charCount_without_space_witness:
  "charCount (Str (utf16 ''a'' @ [0x0009] @ utf16 ''b'' @ [0x000A] @ utf16 ''c'')) = Inr 3 \<and>
   without_space (utf16 ''a'' @ [0x0009] @ utf16 ''b'' @ [0x000A] @ utf16 ''c'') = utf16 ''abc'' \<and>
   charCount (Str (utf16 ''hello world'')) = Inr 10 \<and>
   list_all isSpace (utf16 ''   '') \<and> charCount (Str (utf16 ''   '')) = Inr 0"
proof -
  let ?s = "utf16 ''a'' @ [0x0009] @ utf16 ''b'' @ [0x000A] @ utf16 ''c''"
  have w: "without_space ?s = utf16 ''abc''" by code_simp
  have l: "length (utf16 ''abc'') = 3" by (simp add: utf16_def)
  have w': "length (without_space (utf16 ''hello world'')) = 10" by code_simp
  have sp: "\<forall>c\<in>set (utf16 ''   ''). isSpace c" by code_simp
  have "charCount (Str ?s) = Inr (length (without_space ?s))"
    using charCount_without_space[of ?s] by blast
  then have "charCount (Str ?s) = Inr 3" unfolding w l .
  moreover have "charCount (Str (utf16 ''hello world'')) = Inr 10"
    using charCount_without_space[of "utf16 ''hello world''"] w' by simp
  moreover have "charCount (Str (utf16 ''   '')) = Inr 0"
    using charCount_without_space[of "utf16 ''   ''"] sp by blast
  ultimately show ?thesis using w sp by (simp add: list_all_iff)
qed

text \<open>
  C9. For every input of the domain the word count is at most the character count:
  every word holds at least one character that is not white space.
\<close>

theorem wordCount_le_charCount:
  assumes "in_domain text"
  shows "\<exists>w n. wordCount text = Inr w \<and> charCount text = Inr n \<and> w \<le> n"
  using assms
proof (cases rule: in_domain_cases)
  case 1
  then show ?thesis by (simp add: wordCount_Undefined charCount_Undefined)
next
  case 2
  then show ?thesis by (simp add: wordCount_Null charCount_Null)
next
  case (3 s)
  then show ?thesis by (simp add: wordCount_Str charCount_Str count_words_le_filter)
qed

theorem wordCount_le_charCount_witness:
  "in_domain (Str (utf16 ''a bc  d'')) \<and> wordCount (Str (utf16 ''a bc  d'')) = Inr 3 \<and>
   charCount (Str (utf16 ''a bc  d'')) = Inr 4 \<and>
   (\<exists>w n. wordCount (Str (utf16 ''a bc  d'')) = Inr w \<and>
      charCount (Str (utf16 ''a bc  d'')) = Inr n \<and> w \<le> n)"
proof -
  have d: "in_domain (Str (utf16 ''a bc  d''))" by simp
  have w: "wordCount (Str (utf16 ''a bc  d'')) = Inr 3" by code_simp
  have n: "charCount (Str (utf16 ''a bc  d'')) = Inr 4" by code_simp
  from wordCount_le_charCount[OF d] d w n show ?thesis by blast
qed

section \<open>Totality\<close>

text \<open>
  C4. On the whole input domain (any string, the empty string, a string of white space
  only, an absent or null value) none of \<open>wordCount\<close>, \<open>charCount\<close> and \<open>readingTime\<close>
  throws: each returns an integer that is not negative.
\<close>

theorem functions_total:
  assumes "in_domain text"
  shows "(\<exists>n. wordCount text = Inr n \<and> 0 \<le> int n) \<and> (\<exists>n. charCount text = Inr n \<and> 0 \<le> int n) \<and>
         (\<exists>r. readingTime text = Inr r \<and> 0 \<le> r)"
proof -
  from assms obtain w where w: "wordCount text = Inr w"
    using wordCount_total by blast
  have "\<exists>n. charCount text = Inr n"
    using assms
    by (cases rule: in_domain_cases) (simp_all add: charCount_Undefined charCount_Null charCount_Str)
  moreover have "readingTime text = Inr \<lceil>real w / 200\<rceil>"
    using w by (rule readingTime_Inr)
  moreover have "0 \<le> \<lceil>real w / 200\<rceil>"
    using ceiling_200_bounds(2)[of w] by linarith
  ultimately show ?thesis using w by auto
qed

theorem functions_total_witness:
  "in_domain Undefined \<and> wordCount Undefined = Inr 0 \<and> charCount Undefined = Inr 0 \<and>
   readingTime Undefined = Inr 0 \<and>
   in_domain (Str (utf16 ''  '')) \<and>
   (\<exists>n. wordCount (Str (utf16 ''  '')) = Inr n) \<and> (\<exists>n. charCount (Str (utf16 ''  '')) = Inr n) \<and>
   (\<exists>r. readingTime (Str (utf16 ''  '')) = Inr r \<and> 0 \<le> r)"
proof -
  have d: "in_domain Undefined" "in_domain (Str (utf16 ''  ''))" by simp_all
  have e: "wordCount Undefined = Inr 0" "charCount Undefined = Inr 0"
    "readingTime Undefined = Inr 0" by code_simp+
  from functions_total[OF d(2)] d e show ?thesis by blast
qed

end
